theory Spec2Isabelle
  imports Complex_Main "HOL-Library.Multiset"
begin

section \<open>Numbers and errors\<close>

text \<open>
  Both modules compute on binary floating-point numbers. The embedding idealises a finite
  float as a \<^typ>\<open>real\<close> and its arithmetic as exact: the rounding of a result is modelled
  in one place only, the product that \<^verbatim>\<open>analysis.py\<close> truncates to an index. What is kept
  is the control flow that depends on the kind of number: a Python \<^verbatim>\<open>float\<close> (the balances
  of \<^verbatim>\<open>hydration_request.py\<close>) raises \<^verbatim>\<open>ZeroDivisionError\<close> on a zero divisor.
\<close>

datatype py_error =
    ZeroDivisionError
  | TypeError
  | IndexError
  | KeyError
  | ValueError
  | OverflowError
  | PyException string

text \<open>Python list indexing \<^verbatim>\<open>xs[i]\<close>: a negative index counts from the end.\<close>

definition py_index :: "'a list \<Rightarrow> int \<Rightarrow> py_error + 'a" where
  "py_index xs i =
     (let n = int (length xs); k = (if i < 0 then n + i else i)
      in if 0 \<le> k \<and> k < n then Inr (xs ! nat k) else Inl IndexError)"

section \<open>The stableswap pair and the invariant solver\<close>

text \<open>
  \<^verbatim>\<open>Stableswap_Pair\<close> holds the configuration. The two tokens, the account and the cached
  price take no part in the numerics and are left out.
\<close>

record Stableswap_Pair =
  amplification :: int
  trade_fee :: real
  precision :: real

text \<open>\<^verbatim>\<open>Hydration_Request.has_converged\<close>\<close>

definition has_converged :: "Stableswap_Pair \<Rightarrow> real \<Rightarrow> real \<Rightarrow> bool" where
  "has_converged token_pair v0 v1 =
     (let diff = \<bar>v0 - v1\<bar>
      in if (v1 \<le> v0 \<and> diff < precision token_pair) \<or> (v1 > v0 \<and> diff \<le> precision token_pair)
         then True else False)"

text \<open>
  The inner loop of \<^verbatim>\<open>calculate_d\<close>:
  \<^verbatim>\<open>for x in xp_sorted: d_p *= d / (x * len(balances))\<close>.
\<close>

fun d_p_loop :: "real \<Rightarrow> nat \<Rightarrow> real list \<Rightarrow> real \<Rightarrow> py_error + real" where
  "d_p_loop d n [] d_p = Inr d_p"
| "d_p_loop d n (x # xs) d_p =
     (if x * real n = 0 then Inl ZeroDivisionError
      else d_p_loop d n xs (d_p * (d / (x * real n))))"

text \<open>
  The outer loop \<^verbatim>\<open>for i in range(max_iterations)\<close>, by recursion on the iterations
  left. Falling out of the loop reaches the end of the function body, where Python
  returns \<^verbatim>\<open>None\<close>: the result \<open>Inr None\<close>.
\<close>

fun calculate_d_loop ::
  "Stableswap_Pair \<Rightarrow> real list \<Rightarrow> int \<Rightarrow> real \<Rightarrow> nat \<Rightarrow> nat \<Rightarrow> real \<Rightarrow> py_error + real option"
where
  "calculate_d_loop token_pair xp_sorted ann s n_coins 0 d = Inr None"
| "calculate_d_loop token_pair xp_sorted ann s n_coins (Suc k) d =
     (case d_p_loop d n_coins xp_sorted d of
        Inl e \<Rightarrow> Inl e
      | Inr d_p \<Rightarrow>
          (let denom = (real_of_int ann - 1) * d + (real n_coins + 1) * d_p
           in if denom = 0 then Inl ZeroDivisionError
              else (let d' = (real_of_int ann * s + d_p * real n_coins) * d / denom
                    in if has_converged token_pair d d' then Inr (Some d')
                       else calculate_d_loop token_pair xp_sorted ann s n_coins k d')))"

text \<open>\<^verbatim>\<open>Hydration_Request.calculate_d\<close>; \<^verbatim>\<open>range\<close> of a negative count is empty.\<close>

definition calculate_d :: "Stableswap_Pair \<Rightarrow> real list \<Rightarrow> int \<Rightarrow> py_error + real option" where
  "calculate_d token_pair balances max_iterations =
     (let n_coins = length balances;
          ann = amplification token_pair * int n_coins;
          xp_sorted = sort balances;
          s = sum_list xp_sorted
      in if s = 0 then Inr (Some 0)
         else calculate_d_loop token_pair xp_sorted ann s n_coins (nat max_iterations) s)"

text \<open>The loop of \<^verbatim>\<open>price_at_balance\<close>: \<^verbatim>\<open>for x in sorted_bal: c = c * d / (n * x)\<close>.\<close>

fun c_loop :: "real \<Rightarrow> nat \<Rightarrow> real list \<Rightarrow> real \<Rightarrow> py_error + real" where
  "c_loop d n [] c = Inr c"
| "c_loop d n (x # xs) c =
     (if real n * x = 0 then Inl ZeroDivisionError
      else c_loop d n xs (c * d / (real n * x)))"

text \<open>
  \<^verbatim>\<open>Hydration_Request.price_at_balance\<close>. It calls \<^verbatim>\<open>calculate_d\<close> with the default
  128 iterations. When that returned \<^verbatim>\<open>None\<close>, the first \<^verbatim>\<open>c * d\<close> multiplies
  \<^verbatim>\<open>None\<close> by \<^verbatim>\<open>None\<close> and raises \<^verbatim>\<open>TypeError\<close>; with no balance at all the loop
  body never runs and the index \<^verbatim>\<open>balances[i]\<close> fails.
\<close>

definition price_at_balance :: "Stableswap_Pair \<Rightarrow> real list \<Rightarrow> int \<Rightarrow> int \<Rightarrow> py_error + real" where
  "price_at_balance token_pair balances i j =
     (let n = length balances;
          ann = amplification token_pair * int n
      in case calculate_d token_pair balances 128 of
           Inl e \<Rightarrow> Inl e
         | Inr None \<Rightarrow> (if sort balances = [] then Inl IndexError else Inl TypeError)
         | Inr (Some d) \<Rightarrow>
             (case c_loop d n (sort balances) d of
                Inl e \<Rightarrow> Inl e
              | Inr c \<Rightarrow>
                  (case py_index balances i of
                     Inl e \<Rightarrow> Inl e
                   | Inr xi \<Rightarrow>
                       (case py_index balances j of
                          Inl e \<Rightarrow> Inl e
                        | Inr xj \<Rightarrow>
                            (if real_of_int ann * xj + c = 0 then Inl ZeroDivisionError
                             else if xi = 0 then Inl ZeroDivisionError
                             else Inr (xj * (real_of_int ann * xi + c) / (real_of_int ann * xj + c) / xi))))))"

section \<open>The drawdown statistic\<close>

text \<open>
  The paths of \<^verbatim>\<open>analysis.py\<close> are the columns of a pandas table, so their elements are
  \<^verbatim>\<open>numpy.float64\<close> values: arithmetic on them follows IEEE 754 and never raises, a zero
  divisor gives an infinity or NaN (with a warning only). A value of that kind is a finite
  real, the negative zero, an infinity or NaN; \<open>Fin 0\<close> is the positive zero. A finite
  nonzero result is the exact one, as everywhere in this theory.
\<close>

datatype npfloat = Fin real | NegZero | PInf | NInf | NaN

text \<open>
  Modelled from the spec: the class \<^verbatim>\<open>Simulation\<close>, whose \<^verbatim>\<open>paths\<close> the analysis reads, is
  not among the sources. The specification gives a collection of price paths, each an
  ordered sequence of reals indexed from step 0, of equal or varying length; the code
  iterates over them as the columns of a table, in column order. A path of reals does not
  tell a negative zero from a positive one; its zeros enter the arithmetic as \<open>Fin 0\<close>.
\<close>

type_synonym price_path = "real list"

fun np_is_nan :: "npfloat \<Rightarrow> bool" where
  "np_is_nan NaN = True"
| "np_is_nan x = False"

fun np_is_inf :: "npfloat \<Rightarrow> bool" where
  "np_is_inf PInf = True"
| "np_is_inf NInf = True"
| "np_is_inf x = False"

fun np_is_zero :: "npfloat \<Rightarrow> bool" where
  "np_is_zero (Fin a) = (a = 0)"
| "np_is_zero NegZero = True"
| "np_is_zero x = False"

text \<open>The sign bit of a value that is not NaN.\<close>

fun np_is_neg :: "npfloat \<Rightarrow> bool" where
  "np_is_neg (Fin a) = (a < 0)"
| "np_is_neg NegZero = True"
| "np_is_neg NInf = True"
| "np_is_neg x = False"

text \<open>The real value of a finite float.\<close>

fun np_value :: "npfloat \<Rightarrow> real" where
  "np_value (Fin a) = a"
| "np_value x = 0"

fun np_neg :: "npfloat \<Rightarrow> npfloat" where
  "np_neg (Fin a) = (if a = 0 then NegZero else Fin (- a))"
| "np_neg NegZero = Fin 0"
| "np_neg PInf = NInf"
| "np_neg NInf = PInf"
| "np_neg NaN = NaN"

text \<open>
  Addition: opposite infinities give NaN, and a zero sum is the positive zero unless both
  summands are the negative zero.
\<close>

definition np_add :: "npfloat \<Rightarrow> npfloat \<Rightarrow> npfloat" where
  "np_add x y =
     (if np_is_nan x \<or> np_is_nan y then NaN
      else if np_is_inf x then (if np_is_inf y \<and> x \<noteq> y then NaN else x)
      else if np_is_inf y then y
      else if x = NegZero \<and> y = NegZero then NegZero
      else Fin (np_value x + np_value y))"

definition np_sub :: "npfloat \<Rightarrow> npfloat \<Rightarrow> npfloat" where
  "np_sub x y = np_add x (np_neg y)"

text \<open>
  True division: the sign of the result is the product of the signs; a nonzero value over
  a zero is an infinity, a zero over a zero and an infinity over an infinity are NaN.
\<close>

definition np_truediv :: "npfloat \<Rightarrow> npfloat \<Rightarrow> npfloat" where
  "np_truediv x y =
     (if np_is_nan x \<or> np_is_nan y then NaN
      else if np_is_inf x then
        (if np_is_inf y then NaN else if np_is_neg x = np_is_neg y then PInf else NInf)
      else if np_is_inf y then (if np_is_neg x = np_is_neg y then Fin 0 else NegZero)
      else if np_is_zero y then
        (if np_is_zero x then NaN else if np_is_neg x = np_is_neg y then PInf else NInf)
      else if np_is_zero x then (if np_is_neg x = np_is_neg y then Fin 0 else NegZero)
      else Fin (np_value x / np_value y))"

text \<open>The comparison \<^verbatim>\<open><\<close>: false whenever an operand is NaN; the two zeros are equal.\<close>

definition np_lt :: "npfloat \<Rightarrow> npfloat \<Rightarrow> bool" where
  "np_lt x y =
     (if np_is_nan x \<or> np_is_nan y then False
      else if x = PInf then False
      else if y = NInf then False
      else if x = NInf then True
      else if y = PInf then True
      else np_value x < np_value y)"

text \<open>
  The builtin \<^verbatim>\<open>min\<close> over the elements of a series: it keeps the first element and
  replaces it by each later one that is smaller; an empty series raises \<^verbatim>\<open>ValueError\<close>.
\<close>

definition py_min :: "real list \<Rightarrow> py_error + real" where
  "py_min xs =
     (case xs of
        [] \<Rightarrow> Inl ValueError
      | x # rest \<Rightarrow> Inr (fold (\<lambda>y m. if y < m then y else m) rest x))"

text \<open>
  \<^verbatim>\<open>get_initial_drawdown\<close>: \<^verbatim>\<open>min(series) / series[0] - 1\<close>. The series starts at
  step 0, so \<^verbatim>\<open>series[0]\<close> is its first element; \<^verbatim>\<open>min\<close> is evaluated first and fails
  on an empty series.
\<close>

definition get_initial_drawdown :: "price_path \<Rightarrow> py_error + npfloat" where
  "get_initial_drawdown series =
     (case py_min series of
        Inl e \<Rightarrow> Inl e
      | Inr m \<Rightarrow>
          (case series of
             [] \<Rightarrow> Inl KeyError
           | x0 # _ \<Rightarrow> Inr (np_sub (np_truediv (Fin m) (Fin x0)) (Fin 1))))"

text \<open>The slice \<^verbatim>\<open>path[:at_step]\<close>: a negative bound counts from the end.\<close>

definition py_slice_to :: "'a list \<Rightarrow> int \<Rightarrow> 'a list" where
  "py_slice_to xs k = (if 0 \<le> k then take (nat k) xs else take (nat (int (length xs) + k)) xs)"

text \<open>\<^verbatim>\<open>int(x)\<close> of a float truncates towards zero.\<close>

definition py_int :: "real \<Rightarrow> int" where
  "py_int x = (if 0 \<le> x then \<lfloor>x\<rfloor> else \<lceil>x\<rceil>)"

text \<open>
  The index \<^verbatim>\<open>int(len(initial_drawdowns) * alpha)\<close> truncates a product of floats, and
  the product is rounded before it is truncated; here the rounding is modelled. \<open>fl64\<close>
  rounds a real to the nearest double, ties to the even significand: below \<open>2\<^sup>e\<^sup>+\<^sup>1\<close> and
  from \<open>2\<^sup>e\<close> on the doubles are the multiples of \<open>2\<^sup>e\<^sup>-\<^sup>5\<^sup>2\<close>, and below \<open>2\<^sup>-\<^sup>1\<^sup>0\<^sup>2\<^sup>2\<close> those of
  \<open>2\<^sup>-\<^sup>1\<^sup>0\<^sup>7\<^sup>4\<close>. A result of magnitude \<open>2\<^sup>1\<^sup>0\<^sup>2\<^sup>4\<close> or more stands for the overflow to an
  infinity.
\<close>

definition round_half_even :: "real \<Rightarrow> int" where
  "round_half_even q =
     (let f = \<lfloor>q\<rfloor>; r = q - of_int f
      in if r < 1 / 2 then f else if 1 / 2 < r then f + 1 else if even f then f else f + 1)"

definition fl64 :: "real \<Rightarrow> real" where
  "fl64 x =
     (if x = 0 then 0
      else (let e = max \<lfloor>log 2 \<bar>x\<bar>\<rfloor> (- 1022); u = 2 powr of_int (e - 52)
            in of_int (round_half_even (x / u)) * u))"

text \<open>
  \<^verbatim>\<open>int(n * alpha)\<close> for the length \<open>n\<close> of a list and a float \<^verbatim>\<open>alpha\<close>: the integer is
  converted to a float, the floats are multiplied, the product is truncated. Python raises
  \<^verbatim>\<open>OverflowError\<close> for an integer too large for a float and for the truncation of an
  infinity.
\<close>

definition quantile_index :: "nat \<Rightarrow> real \<Rightarrow> py_error + int" where
  "quantile_index n alpha =
     (let fn = fl64 (real n)
      in if 2 ^ 1024 \<le> fn then Inl OverflowError
         else (let p = fl64 (fn * alpha)
               in if 2 ^ 1024 \<le> \<bar>p\<bar> then Inl OverflowError else Inr (py_int p)))"

text \<open>
  \<^verbatim>\<open>initial_drawdowns.sort(reverse=True)\<close>, as an insertion sort on the comparison
  \<^verbatim>\<open><\<close> of the values. On a list without NaN every comparison sort gives this result;
  with a NaN in the list the order Python produces depends on its sorting algorithm, and
  nothing below is stated about the order in that case.
\<close>

fun insort_reverse :: "npfloat \<Rightarrow> npfloat list \<Rightarrow> npfloat list" where
  "insort_reverse x [] = [x]"
| "insort_reverse x (y # ys) = (if np_lt y x then x # y # ys else y # insort_reverse x ys)"

definition sort_reverse :: "npfloat list \<Rightarrow> npfloat list" where
  "sort_reverse xs = foldr insort_reverse xs []"

text \<open>
  The loop
  \<^verbatim>\<open>for _, path in paths.iteritems(): initial_drawdowns.append(get_initial_drawdown(path[:at_step]))\<close>.
\<close>

fun initial_drawdowns_loop ::
  "int \<Rightarrow> price_path list \<Rightarrow> npfloat list \<Rightarrow> py_error + npfloat list"
where
  "initial_drawdowns_loop at_step [] initial_drawdowns = Inr initial_drawdowns"
| "initial_drawdowns_loop at_step (path # paths) initial_drawdowns =
     (case get_initial_drawdown (py_slice_to path at_step) of
        Inl e \<Rightarrow> Inl e
      | Inr v \<Rightarrow> initial_drawdowns_loop at_step paths (initial_drawdowns @ [v]))"

text \<open>The first statement: \<^verbatim>\<open>at_step = -1 if at_step is None else at_step\<close>.\<close>

definition effective_step :: "int option \<Rightarrow> int" where
  "effective_step at_step = (case at_step of None \<Rightarrow> - 1 | Some k \<Rightarrow> k)"

definition step_message :: string where
  "step_message = ''Step must be smaller or equal to the length of the path.''"

text \<open>
  \<^verbatim>\<open>Analysis.get_threshold_multiplier\<close>, on the paths of the simulation in column order.
  \<^verbatim>\<open>paths[0]\<close> is the first column; a table with no column has none.
\<close>

definition get_threshold_multiplier ::
  "price_path list \<Rightarrow> real \<Rightarrow> int option \<Rightarrow> py_error + npfloat"
where
  "get_threshold_multiplier paths alpha at_step =
     (let at_step' = effective_step at_step
      in case paths of
           [] \<Rightarrow> Inl KeyError
         | path0 # _ \<Rightarrow>
             if at_step' > int (length path0) then Inl (PyException step_message)
             else
               (case initial_drawdowns_loop at_step' paths [] of
                  Inl e \<Rightarrow> Inl e
                | Inr initial_drawdowns \<Rightarrow>
                    (let sorted_drawdowns = sort_reverse initial_drawdowns
                     in case quantile_index (length sorted_drawdowns) alpha of
                          Inl e \<Rightarrow> Inl e
                        | Inr i \<Rightarrow>
                            (case py_index sorted_drawdowns i of
                               Inl e \<Rightarrow> Inl e
                             | Inr value_at_risk \<Rightarrow>
                                 Inr (np_truediv (Fin 1) (np_add (Fin 1) value_at_risk))))))"

text \<open>
  The drawdown sample in the words of the specification, for stating results: the minimum
  of a series divided by its first value, minus one, in real arithmetic. The code's own
  computation is \<^verbatim>\<open>get_initial_drawdown\<close> above.
\<close>

definition drawdown_sample :: "price_path \<Rightarrow> real" where
  "drawdown_sample series = Min (set series) / hd series - 1"

section \<open>The convergence test\<close>

text \<open>
  C2. For every pair of successive iterates and every precision, the convergence test accepts
  exactly when the new iterate is not above the old one and their distance is strictly below
  the precision, or the new iterate is above the old one and their distance is at most the
  precision.
\<close>

theorem has_converged_iff:
  "has_converged token_pair prev nxt =
     ((nxt \<le> prev \<and> \<bar>prev - nxt\<bar> < precision token_pair) \<or>
      (nxt > prev \<and> \<bar>prev - nxt\<bar> \<le> precision token_pair))"
  by (simp add: has_converged_def Let_def)

section \<open>The invariant solver\<close>

subsection \<open>Positive iterates\<close>

lemma d_p_loop_pos:
  "\<forall>x\<in>set xs. 0 < x \<Longrightarrow> 0 < n \<Longrightarrow> 0 < d \<Longrightarrow> 0 < d_p \<Longrightarrow>
   \<exists>r. d_p_loop d n xs d_p = Inr r \<and> 0 < r"
  by (induction xs arbitrary: d_p) auto

lemma c_loop_pos:
  "\<forall>x\<in>set xs. 0 < x \<Longrightarrow> 0 < n \<Longrightarrow> 0 < d \<Longrightarrow> 0 < c \<Longrightarrow>
   \<exists>r. c_loop d n xs c = Inr r \<and> 0 < r"
  by (induction xs arbitrary: c) auto

lemma calculate_d_loop_pos:
  assumes "\<forall>x\<in>set xs. 0 < x" "0 < n" "1 \<le> ann" "0 < s"
  shows "0 < d \<Longrightarrow> calculate_d_loop tp xs ann s n k d = Inr (Some r) \<Longrightarrow> 0 < r"
proof (induction k arbitrary: d)
  case 0
  then show ?case by simp
next
  case (Suc k)
  from d_p_loop_pos[OF assms(1,2) Suc.prems(1) Suc.prems(1)]
  obtain dp where dp: "d_p_loop d n xs d = Inr dp" "0 < dp" by blast
  let ?den = "(real_of_int ann - 1) * d + (real n + 1) * dp"
  let ?d' = "(real_of_int ann * s + dp * real n) * d / ?den"
  have a: "0 \<le> (real_of_int ann - 1) * d" using assms(3) Suc.prems(1) by simp
  have b: "0 < (real n + 1) * dp" using dp(2) by simp
  have den: "0 < ?den" using a b by linarith
  have num: "0 < (real_of_int ann * s + dp * real n) * d"
    using assms Suc.prems(1) dp(2) by (simp add: add_pos_pos)
  have d': "0 < ?d'" using den num by simp
  show ?case
  proof (cases "has_converged tp d ?d'")
    case True
    with Suc.prems(2) dp den have "r = ?d'" by (simp add: Let_def)
    with d' show ?thesis by simp
  next
    case False
    with Suc.prems(2) dp den have "calculate_d_loop tp xs ann s n k ?d' = Inr (Some r)"
      by (simp add: Let_def)
    from Suc.IH[OF d' this] show ?thesis .
  qed
qed

subsection \<open>A pool on which 128 iterations are not enough\<close>

text \<open>
  With amplification 1 and the two balances \<open>1\<close> and \<open>M\<close>, one iteration from \<open>d\<close> computes
  \<open>d_p = d\<^sup>3 / (4 M)\<close> and \<open>d' = (2 (1 + M) + 2 d_p) d / (d + 3 d_p)\<close>. While \<open>d\<close> is between a
  bound \<open>B\<close> and the sum \<open>1 + M\<close>, the next iterate is below \<open>d\<close> by at least the precision
  and not below \<open>2/3 d\<close>: the iteration shrinks by a factor of at most \<open>3/2\<close> a step and needs
  more steps than it has when \<open>M\<close> is large.
\<close>

lemma slow_step:
  fixes M B d e :: real
  assumes M: "0 < M" and B: "0 < B" and Bd: "B \<le> d" and ds: "d \<le> 1 + M"
    and cube: "16 * M * (1 + M) \<le> B ^ 3" and eB: "6 * e \<le> B"
    and dp_def: "dp = d * (d / (1 * 2)) * (d / (M * 2))"
    and den_def: "den = (2 - 1) * d + (2 + 1) * dp"
    and d'_def: "d' = (2 * (1 + M) + dp * 2) * d / den"
  shows "0 < den" and "d' \<le> d" and "2 / 3 * d \<le> d'" and "e \<le> d - d'"
proof -
  have d0: "0 < d" using B Bd by argo
  have dp_eq: "dp = d ^ 3 / (4 * M)"
    by (simp add: dp_def power3_eq_cube)
  have "B ^ 3 \<le> d ^ 3" using B Bd by (intro power_mono) auto
  then have "16 * M * (1 + M) \<le> d ^ 3" using cube by argo
  then have "4 * (1 + M) * (4 * M) \<le> d ^ 3" by (simp add: algebra_simps)
  then have dp4: "4 * (1 + M) \<le> dp"
    unfolding dp_eq using M by (simp add: pos_le_divide_eq)
  have "0 < 4 * (1 + M)" using M by simp
  then have dp0: "0 < dp" using dp4 by (rule less_le_trans)
  show den0: "0 < den" unfolding den_def using d0 dp0 by simp
  have den_eq: "den = d + 3 * dp" by (simp add: den_def)
  have "(2 * (1 + M) + dp * 2) * d \<le> d * den"
  proof -
    have "2 * (1 + M) + dp * 2 \<le> den" unfolding den_eq using dp4 d0 M by argo
    then show ?thesis using d0 by (simp add: mult.commute)
  qed
  then show "d' \<le> d" unfolding d'_def using den0 by (simp add: pos_divide_le_eq)
  have "2 / 3 * d * den \<le> (2 * (1 + M) + dp * 2) * d"
  proof -
    have "2 / 3 * den \<le> 2 * (1 + M) + dp * 2" unfolding den_eq using ds M by argo
    then have "2 / 3 * den * d \<le> (2 * (1 + M) + dp * 2) * d"
      using d0 by (intro mult_right_mono) auto
    then show ?thesis by (simp add: mult.assoc mult.commute mult.left_commute)
  qed
  then show "2 / 3 * d \<le> d'" unfolding d'_def using den0 by (simp add: pos_le_divide_eq)
  have diff: "d - d' = d * (d + dp - 2 * (1 + M)) / den"
    unfolding d'_def den_eq using den0 den_eq by (simp add: field_simps)
  have e6: "e \<le> d / 6" using eB Bd by argo
  have half: "dp / 2 \<le> dp - 2 * (1 + M)" using dp4 by argo
  have t1: "e * d \<le> d * d"
  proof -
    have "e \<le> d" using e6 d0 by argo
    then show ?thesis using d0 by (intro mult_right_mono) auto
  qed
  have t2: "e * (3 * dp) \<le> d * (dp - 2 * (1 + M))"
  proof -
    have "e * (3 * dp) \<le> d / 6 * (3 * dp)" using e6 dp0 by (intro mult_right_mono) auto
    also have "\<dots> = d * (dp / 2)" by simp
    also have "\<dots> \<le> d * (dp - 2 * (1 + M))" using half d0 by (intro mult_left_mono) auto
    finally show ?thesis .
  qed
  have "e * den \<le> d * (d + dp - 2 * (1 + M))"
    unfolding den_eq using t1 t2 by (simp add: algebra_simps)
  then show "e \<le> d - d'" unfolding diff using den0 by (simp add: pos_le_divide_eq)
qed

lemma slow_loop:
  fixes M B :: real
  assumes M: "0 < M" and B: "0 < B" and cube: "16 * M * (1 + M) \<le> B ^ 3"
    and eB: "6 * precision tp \<le> B"
  shows "B * (3 / 2) ^ k \<le> d \<Longrightarrow> d \<le> 1 + M \<Longrightarrow>
         calculate_d_loop tp [1, M] 2 (1 + M) 2 k d = Inr None"
proof (induction k arbitrary: d)
  case 0
  then show ?case by simp
next
  case (Suc k)
  define dp where "dp = d * (d / (1 * 2)) * (d / (M * 2))"
  define den where "den = (2 - 1) * d + (2 + 1) * dp"
  define d' where "d' = (2 * (1 + M) + dp * 2) * d / den"
  have "B * (3 / 2) ^ k \<le> B * (3 / 2) ^ Suc k" using B by simp
  have pw: "(1::real) \<le> (3 / 2) ^ Suc k" by (rule one_le_power) simp
  have Bd: "B \<le> d"
  proof -
    have "B * 1 \<le> B * (3 / 2) ^ Suc k" using B pw by (intro mult_left_mono) auto
    then show ?thesis using Suc.prems(1) by simp
  qed
  note st = slow_step[OF M B Bd Suc.prems(2) cube eB dp_def den_def d'_def]
  have dpl: "d_p_loop d 2 [1, M] d = Inr dp" using M by (simp add: dp_def)
  have nc: "\<not> has_converged tp d d'"
    using st(2,4) eB B by (simp add: has_converged_def Let_def)
  have lo: "B * (3 / 2) ^ k \<le> d'"
  proof -
    have "B * (3 / 2) ^ k = 2 / 3 * (B * (3 / 2) ^ Suc k)" by simp
    also have "\<dots> \<le> 2 / 3 * d" using Suc.prems(1) by (intro mult_left_mono) auto
    also have "\<dots> \<le> d'" by (rule st(3))
    finally show ?thesis .
  qed
  have hi: "d' \<le> 1 + M" using st(2) Suc.prems(2) by argo
  have "calculate_d_loop tp [1, M] 2 (1 + M) 2 (Suc k) d =
        calculate_d_loop tp [1, M] 2 (1 + M) 2 k d'"
    using dpl st(1) nc by (simp add: Let_def den_def d'_def)
  then show ?case using Suc.IH[OF lo hi] by simp
qed

subsection \<open>Sorting keeps the sum\<close>

lemma sum_list_insort_key: "sum_list (insort (x::real) xs) = x + sum_list xs"
  by (induction xs) auto

lemma sum_list_sort_real: "sum_list (sort (xs::real list)) = sum_list xs"
  by (induction xs) (auto simp: sum_list_insort_key)

lemma c_loop_zero_balance:
  "0 \<in> set xs \<Longrightarrow> 0 < n \<Longrightarrow> c_loop d n xs c = Inl ZeroDivisionError"
  by (induction xs arbitrary: c) auto

lemma sum_list_pos_real:
  "xs \<noteq> [] \<Longrightarrow> \<forall>x\<in>set xs. 0 < (x::real) \<Longrightarrow> 0 < sum_list xs"
  by (induction xs) (auto simp: add_pos_nonneg sum_list_nonneg less_imp_le)

lemma swap_product_one:
  fixes a b x y :: real
  shows "a \<noteq> 0 \<Longrightarrow> b \<noteq> 0 \<Longrightarrow> x \<noteq> 0 \<Longrightarrow> y \<noteq> 0 \<Longrightarrow> (y * a / b / x) * (x * b / a / y) = 1"
  by (simp add: field_simps)

lemma py_index_in_range:
  "0 \<le> i \<Longrightarrow> i < int (length xs) \<Longrightarrow> py_index xs i = Inr (xs ! nat i)"
  by (simp add: py_index_def Let_def)

lemma calculate_d_pos:
  assumes pos: "\<forall>x\<in>set balances. 0 < x" and ne: "balances \<noteq> []"
    and amp: "1 \<le> amplification token_pair"
    and res: "calculate_d token_pair balances max_iterations = Inr (Some d)"
  shows "0 < d"
proof -
  let ?n = "length balances"
  have n: "0 < ?n" using ne by simp
  have s: "0 < sum_list (sort balances)"
    using sum_list_pos_real[OF ne pos] by (simp add: sum_list_sort_real)
  have ann: "1 \<le> amplification token_pair * int ?n"
  proof -
    have "1 * int ?n \<le> amplification token_pair * int ?n"
      using amp by (intro mult_right_mono) auto
    moreover have "1 \<le> int ?n" using n by linarith
    ultimately show ?thesis by simp
  qed
  have pos': "\<forall>x\<in>set (sort balances). 0 < x" using pos by simp
  from res s have
    "calculate_d_loop token_pair (sort balances) (amplification token_pair * int ?n)
       (sum_list (sort balances)) ?n (nat max_iterations) (sum_list (sort balances)) = Inr (Some d)"
    by (simp add: calculate_d_def Let_def)
  from calculate_d_loop_pos[OF pos' n ann s s this] show ?thesis .
qed

section \<open>Exhausting the iterations\<close>

lemma slow_pool_exhausts:
  "calculate_d \<lparr>amplification = 1, trade_fee = 0, precision = 1\<rparr> [1, 10 ^ 72] 128 = Inr None"
proof -
  let ?tp = "\<lparr>amplification = 1, trade_fee = 0, precision = 1\<rparr>"
  let ?M = "10 ^ 72 :: real"
  let ?B = "10 ^ 49 :: real"
  have M: "0 < ?M" and B: "0 < ?B" by simp_all
  have cube: "16 * ?M * (1 + ?M) \<le> ?B ^ 3" by simp
  have prec: "6 * precision ?tp \<le> ?B" by simp
  have lo: "?B * (3 / 2) ^ 128 \<le> 1 + ?M" by (simp add: power_divide)
  have hi: "1 + ?M \<le> 1 + ?M" by simp
  have "calculate_d_loop ?tp [1, ?M] 2 (1 + ?M) 2 128 (1 + ?M) = Inr None"
    by (rule slow_loop[OF M B cube prec lo hi])
  moreover have "sort [1, ?M] = [1, ?M]" by simp
  moreover have "1 + ?M \<noteq> 0" by simp
  ultimately show ?thesis by (simp add: calculate_d_def Let_def numeral_2_eq_2[symmetric])
qed

text \<open>
  C1. The claim: when the iteration does not meet the convergence test within
  \<^verbatim>\<open>max_iterations\<close> iterations, \<^verbatim>\<open>calculate_d\<close> fails with a NonConvergence error and neither
  returns a value nor returns nothing. The code at such inputs: with amplification 1,
  precision 1, the balances 1 and \<open>10\<^sup>7\<^sup>2\<close> and the default 128 iterations the loop runs
  out, no error is raised and the function returns \<^verbatim>\<open>None\<close>; so it does with the
  balances 1 and 3, precision \<open>1/10\<close> and one iteration, which moves \<open>d\<close> from 4 to
  \<open>56/15\<close>.
\<close>

theorem calculate_d_exhausted_returns_None:
  "calculate_d \<lparr>amplification = 1, trade_fee = 0, precision = 1\<rparr> [1, 10 ^ 72] 128 = Inr None \<and>
   calculate_d \<lparr>amplification = 1, trade_fee = 0, precision = 1 / 10\<rparr> [1, 3] 1 = Inr None"
proof -
  have "calculate_d \<lparr>amplification = 1, trade_fee = 0, precision = 1 / 10\<rparr> [1, 3] 1 = Inr None"
    by (simp add: calculate_d_def Let_def has_converged_def)
  with slow_pool_exhausts show ?thesis by blast
qed

section \<open>The marginal price\<close>

text \<open>
  C5, as the code has it. For positive balances, an amplification of at least 1 and two
  indices of the balance vector (distinct or not), whenever the invariant solver converges
  within its 128 iterations both \<^verbatim>\<open>price_at_balance\<close> with \<open>(i, j)\<close> and with \<open>(j, i)\<close>
  return a price, and the two prices multiply to exactly 1 in real arithmetic.
\<close>

theorem price_at_balance_round_trip:
  assumes pos: "\<forall>x\<in>set balances. 0 < x"
    and amp: "1 \<le> amplification token_pair"
    and i: "0 \<le> i" "i < int (length balances)"
    and j: "0 \<le> j" "j < int (length balances)"
    and conv: "calculate_d token_pair balances 128 = Inr (Some d)"
  shows "\<exists>p q. price_at_balance token_pair balances i j = Inr p \<and>
               price_at_balance token_pair balances j i = Inr q \<and> p * q = 1"
proof -
  let ?n = "length balances"
  let ?ann = "real_of_int (amplification token_pair * int ?n)"
  let ?xi = "balances ! nat i" and ?xj = "balances ! nat j"
  have ne: "balances \<noteq> []" using i by auto
  have n: "0 < ?n" using ne by simp
  have d: "0 < d" by (rule calculate_d_pos[OF pos ne amp conv])
  have "\<forall>x\<in>set (sort balances). 0 < x" using pos by simp
  from c_loop_pos[OF this n d d]
  obtain c where c: "c_loop d ?n (sort balances) d = Inr c" "0 < c" by blast
  have xi: "py_index balances i = Inr ?xi" by (rule py_index_in_range[OF i])
  have xj: "py_index balances j = Inr ?xj" by (rule py_index_in_range[OF j])
  have xi0: "0 < ?xi" using pos i by (simp add: nat_less_iff)
  have xj0: "0 < ?xj" using pos j by (simp add: nat_less_iff)
  have ann: "0 < ?ann"
  proof -
    have "0 < amplification token_pair * int ?n"
      using amp n by (intro mult_pos_pos) auto
    then show ?thesis by (simp only: of_int_0_less_iff)
  qed
  have di: "0 < ?ann * ?xi + c" using ann xi0 c(2) by (simp add: add_pos_pos)
  have dj: "0 < ?ann * ?xj + c" using ann xj0 c(2) by (simp add: add_pos_pos)
  let ?p = "?xj * (?ann * ?xi + c) / (?ann * ?xj + c) / ?xi"
  let ?q = "?xi * (?ann * ?xj + c) / (?ann * ?xi + c) / ?xj"
  have p: "price_at_balance token_pair balances i j = Inr ?p"
    using conv c(1) xi xj dj xi0 by (simp add: price_at_balance_def Let_def)
  have q: "price_at_balance token_pair balances j i = Inr ?q"
    using conv c(1) xi xj di xj0 by (simp add: price_at_balance_def Let_def)
  have "?p * ?q = 1" using di dj xi0 xj0 by (intro swap_product_one) auto
  with p q show ?thesis by blast
qed

theorem price_at_balance_round_trip_witness:
  "calculate_d \<lparr>amplification = 1, trade_fee = 0, precision = 100\<rparr> [1, 3] 128 = Inr (Some (56 / 15)) \<and>
   (\<exists>p q. price_at_balance \<lparr>amplification = 1, trade_fee = 0, precision = 100\<rparr> [1, 3] 1 0 = Inr p \<and>
         price_at_balance \<lparr>amplification = 1, trade_fee = 0, precision = 100\<rparr> [1, 3] 0 1 = Inr q \<and>
         p * q = 1)"
proof -
  let ?tp = "\<lparr>amplification = 1, trade_fee = 0, precision = 100\<rparr>"
  have conv: "calculate_d ?tp [1, 3] 128 = Inr (Some (56 / 15))"
    by (simp add: calculate_d_def Let_def has_converged_def eval_nat_numeral)
  have "\<exists>p q. price_at_balance ?tp [1, 3] 1 0 = Inr p \<and>
          price_at_balance ?tp [1, 3] 0 1 = Inr q \<and> p * q = 1"
    by (rule price_at_balance_round_trip[OF _ _ _ _ _ _ conv]) simp_all
  with conv show ?thesis by blast
qed

text \<open>
  The claim as stated, for every valid balance vector, fails where the solver does not
  converge: on the pool above no price is computed, the \<^verbatim>\<open>None\<close> that \<^verbatim>\<open>calculate_d\<close>
  returned raises \<^verbatim>\<open>TypeError\<close> in the first multiplication.
\<close>

theorem price_at_balance_round_trip_counterexample:
  "price_at_balance \<lparr>amplification = 1, trade_fee = 0, precision = 1\<rparr> [1, 10 ^ 72] 1 0 = Inl TypeError \<and>
   price_at_balance \<lparr>amplification = 1, trade_fee = 0, precision = 1\<rparr> [1, 10 ^ 72] 0 1 = Inl TypeError"
  using slow_pool_exhausts by (simp add: price_at_balance_def Let_def)

section \<open>The degenerate pool\<close>

text \<open>
  C6, as the code has it. For every balance vector that sums to zero \<^verbatim>\<open>calculate_d\<close>
  returns 0, whatever the iteration bound. \<^verbatim>\<open>price_at_balance\<close> validates nothing: when
  such a vector holds a zero balance (as every non-empty zero-sum vector of non-negative
  balances does), the division \<^verbatim>\<open>c * d / (n * x)\<close> raises \<^verbatim>\<open>ZeroDivisionError\<close>.
\<close>

theorem degenerate_pool:
  assumes "sum_list balances = 0"
  shows "calculate_d token_pair balances max_iterations = Inr (Some 0) \<and>
         (0 \<in> set balances \<longrightarrow> price_at_balance token_pair balances i j = Inl ZeroDivisionError)"
proof -
  have d: "\<And>m. calculate_d token_pair balances m = Inr (Some 0)"
    using assms by (simp add: calculate_d_def Let_def sum_list_sort_real)
  have "price_at_balance token_pair balances i j = Inl ZeroDivisionError"
    if z: "0 \<in> set balances"
  proof -
    have "0 < length balances" using z by (cases balances) auto
    moreover have "0 \<in> set (sort balances)" using z by simp
    ultimately have "c_loop 0 (length balances) (sort balances) 0 = Inl ZeroDivisionError"
      by (intro c_loop_zero_balance)
    then show ?thesis by (simp add: price_at_balance_def Let_def d)
  qed
  with d show ?thesis by blast
qed

theorem degenerate_pool_witness:
  "sum_list [0, 0 :: real] = 0 \<and>
   calculate_d \<lparr>amplification = 1, trade_fee = 0, precision = 1\<rparr> [0, 0] 128 = Inr (Some 0) \<and>
   price_at_balance \<lparr>amplification = 1, trade_fee = 0, precision = 1\<rparr> [0, 0] 1 0 = Inl ZeroDivisionError"
  using degenerate_pool[of "[0, 0]" "\<lparr>amplification = 1, trade_fee = 0, precision = 1\<rparr>" 128 1 0]
  by simp

text \<open>
  The claim as stated, that the price computation rejects the degenerate vector before
  any division by zero: on two zero balances the code divides by zero.
\<close>

theorem degenerate_pool_counterexample:
  "price_at_balance \<lparr>amplification = 1, trade_fee = 0, precision = 1\<rparr> [0, 0] 1 0 = Inl ZeroDivisionError"
  by (simp add: price_at_balance_def calculate_d_def Let_def)

section \<open>Facts about the drawdown statistic\<close>

subsection \<open>Arithmetic on finite values\<close>

lemma np_lt_Fin [simp]: "np_lt (Fin a) (Fin b) = (a < b)"
  by (simp add: np_lt_def)

lemma np_add_Fin [simp]: "np_add (Fin a) (Fin b) = Fin (a + b)"
  by (simp add: np_add_def)

lemma np_sub_Fin [simp]: "np_sub (Fin a) (Fin b) = Fin (a - b)"
  by (simp add: np_sub_def np_add_def)

lemma np_truediv_Fin:
  "np_truediv (Fin a) (Fin b) =
     (if b = 0 then (if a = 0 then NaN else if a < 0 then NInf else PInf)
      else if a = 0 then (if b < 0 then NegZero else Fin 0)
      else Fin (a / b))"
  by (simp add: np_truediv_def)

lemma np_truediv_one [simp]:
  "np_truediv (Fin 1) (Fin b) = (if b = 0 then PInf else Fin (1 / b))"
  by (simp add: np_truediv_def)

lemma np_truediv_by_zero:
  "np_truediv (Fin a) (Fin 0) = (if a = 0 then NaN else if a < 0 then NInf else PInf)"
  by (simp add: np_truediv_def)

lemma np_sub_not_finite [simp]:
  "np_sub NaN (Fin b) = NaN" "np_sub PInf (Fin b) = PInf" "np_sub NInf (Fin b) = NInf"
  by (simp_all add: np_sub_def np_add_def)

lemma np_not_finite_one [simp]:
  "np_add (Fin 1) NaN = NaN" "np_truediv (Fin 1) NaN = NaN"
  by (simp_all add: np_add_def np_truediv_def)

subsection \<open>Rounding to a double\<close>



text \<open>
  A real whose multiple by \<open>2\<^sup>k\<close> lies between \<open>2\<^sup>5\<^sup>2\<close> and \<open>2\<^sup>5\<^sup>3\<close> rounds to the nearest
  multiple of \<open>2\<^sup>-\<^sup>k\<close>.
\<close>

lemma fl64_scaled:
  fixes x :: real and k :: nat
  assumes lo: "2 ^ 52 \<le> \<bar>x\<bar> * 2 ^ k" and hi: "\<bar>x\<bar> * 2 ^ k < 2 ^ 53" and k: "k \<le> 1074"
  shows "fl64 x = of_int (round_half_even (x * 2 ^ k)) / 2 ^ k"
proof -
  have x0: "x \<noteq> 0" using lo by auto
  then have ax: "0 < \<bar>x\<bar>" by simp
  have "(2::real) powr (52 - real k) = 2 powr 52 / 2 powr real k" by (rule powr_diff)
  also have "(2::real) powr real k = 2 ^ k" by (simp add: powr_realpow)
  also have "(2::real) powr 52 = 2 ^ 52" by simp
  finally have p: "(2::real) powr of_int (52 - int k) = 2 ^ 52 / 2 ^ k" by simp
  have "(2::real) powr (of_int (52 - int k) + 1) = 2 powr of_int (52 - int k) * 2 powr 1"
    by (rule powr_add)
  then have p1: "(2::real) powr (of_int (52 - int k) + 1) = 2 ^ 53 / 2 ^ k"
    unfolding p by simp
  have "2 powr of_int (52 - int k) \<le> \<bar>x\<bar>" unfolding p using lo by (simp add: field_simps)
  moreover have "\<bar>x\<bar> < 2 powr (of_int (52 - int k) + 1)"
    unfolding p1 using hi by (simp add: field_simps)
  ultimately have fl: "\<lfloor>log 2 \<bar>x\<bar>\<rfloor> = 52 - int k"
    using ax by (simp add: floor_log_eq_powr_iff)
  have mx: "max (52 - int k) (- 1022) = 52 - int k" using k by simp
  have u: "(2::real) powr (- real k) = 1 / 2 ^ k"
    by (simp add: powr_minus powr_realpow inverse_eq_divide)
  show ?thesis using x0 by (simp add: fl64_def Let_def fl mx u)
qed

lemma fl64_1: "fl64 1 = 1"
  by (subst fl64_scaled[of _ 52]) (simp_all add: round_half_even_def)

lemma fl64_half: "fl64 (1 / 2) = 1 / 2"
  by (subst fl64_scaled[of _ 53]) (simp_all add: round_half_even_def)

lemma fl64_2: "fl64 2 = 2"
  by (subst fl64_scaled[of _ 51]) (simp_all add: round_half_even_def)

lemma fl64_5: "fl64 5 = 5"
  by (subst fl64_scaled[of _ 50]) (simp_all add: round_half_even_def)

lemma fl64_5_half: "fl64 (5 / 2) = 5 / 2"
  by (subst fl64_scaled[of _ 51]) (simp_all add: round_half_even_def)

lemma fl64_10: "fl64 10 = 10"
  by (subst fl64_scaled[of _ 49]) (simp_all add: round_half_even_def)

text \<open>
  The double nearest to \<open>0.7\<close> is \<open>3152519739159347 / 2\<^sup>5\<^sup>2\<close>, a little below \<open>0.7\<close>. Ten
  times it lies halfway between two doubles and is rounded to the even one, which is 7.
\<close>

lemma fl64_10_times_double_07: "fl64 (10 * (3152519739159347 / 4503599627370496)) = 7"
  by (subst fl64_scaled[of _ 50]) (simp_all add: round_half_even_def)

subsection \<open>The index\<close>


lemma quantile_index_error: "quantile_index n alpha = Inl e \<Longrightarrow> e = OverflowError"
  by (auto simp: quantile_index_def Let_def split: if_splits)

lemma quantile_index_1_half: "n = 1 \<Longrightarrow> quantile_index n (1 / 2) = Inr 0"
  by (simp add: quantile_index_def Let_def py_int_def fl64_1 fl64_half)

lemma quantile_index_2_half: "n = 2 \<Longrightarrow> quantile_index n (1 / 2) = Inr 1"
  by (simp add: quantile_index_def Let_def py_int_def fl64_1 fl64_2)

lemma quantile_index_5_half: "n = 5 \<Longrightarrow> quantile_index n (1 / 2) = Inr 2"
  by (simp add: quantile_index_def Let_def py_int_def fl64_5 fl64_5_half)

lemma quantile_index_10_double_07:
  "n = 10 \<Longrightarrow> quantile_index n (3152519739159347 / 4503599627370496) = Inr 7"
  by (simp add: quantile_index_def Let_def py_int_def fl64_10 fl64_10_times_double_07
      del: times_divide_eq_right)

subsection \<open>The drawdown of one path\<close>

lemma py_min_Cons: "py_min (x # xs) = Inr (Min (set (x # xs)))"
proof -
  have "(\<lambda>y m. if y < m then y else m) = (min :: real \<Rightarrow> real \<Rightarrow> real)"
    by (intro ext) (simp add: min_def)
  then show ?thesis using Min.set_eq_fold[of x xs] by (simp add: py_min_def)
qed

lemma get_initial_drawdown_Nil: "get_initial_drawdown [] = Inl ValueError"
  by (simp add: get_initial_drawdown_def py_min_def)

lemma get_initial_drawdown_finite:
  assumes "series \<noteq> []" and "hd series \<noteq> 0"
  shows "get_initial_drawdown series = Inr (Fin (Min (set series) / hd series - 1))"
proof -
  obtain x0 rest where s: "series = x0 # rest" using assms(1) by (cases series) auto
  have x0: "x0 \<noteq> 0" using assms(2) s by simp
  have le: "Min (insert x0 (set rest)) \<le> x0" by (intro Min_le) auto
  have nz: "Min (insert x0 (set rest)) = 0 \<Longrightarrow> x0 < 0 \<Longrightarrow> False" using le by linarith
  have "np_truediv (Fin (Min (insert x0 (set rest)))) (Fin x0) =
          Fin (Min (insert x0 (set rest)) / x0)"
    using x0 nz by (auto simp: np_truediv_Fin)
  then show ?thesis by (simp add: get_initial_drawdown_def py_min_Cons s)
qed

lemma get_initial_drawdown_zero_first:
  assumes "series \<noteq> []" and "hd series = 0"
  shows "get_initial_drawdown series = Inr (if Min (set series) = 0 then NaN else NInf)"
proof -
  obtain rest where s: "series = 0 # rest" using assms by (cases series) auto
  have le: "Min (insert 0 (set rest)) \<le> 0" by (intro Min_le) auto
  show ?thesis
  proof (cases "Min (insert 0 (set rest)) = 0")
    case True
    then show ?thesis by (simp add: get_initial_drawdown_def py_min_Cons s np_truediv_by_zero)
  next
    case False
    with le have "Min (insert 0 (set rest)) < 0" by (rule order.not_eq_order_implies_strict[rotated])
    with False show ?thesis
      by (simp add: get_initial_drawdown_def py_min_Cons s np_truediv_by_zero)
  qed
qed

lemma get_initial_drawdown_error:
  "get_initial_drawdown series = Inl e \<Longrightarrow> e = ValueError \<and> series = []"
  by (cases series) (simp_all add: get_initial_drawdown_def py_min_def)

lemma hd_py_slice_to: "py_slice_to p k \<noteq> [] \<Longrightarrow> hd (py_slice_to p k) = hd p"
  by (cases p) (auto simp: py_slice_to_def take_Cons' split: if_splits)

lemma set_py_slice_to: "set (py_slice_to p k) \<subseteq> set p"
  by (auto simp: py_slice_to_def dest: in_set_takeD)

subsection \<open>The loop over the paths\<close>

lemma initial_drawdowns_loop_finite:
  "\<forall>p\<in>set paths. py_slice_to p k \<noteq> [] \<and> hd p \<noteq> 0 \<Longrightarrow>
   initial_drawdowns_loop k paths acc =
     Inr (acc @ map (\<lambda>p. Fin (drawdown_sample (py_slice_to p k))) paths)"
proof (induction paths arbitrary: acc)
  case Nil
  then show ?case by simp
next
  case (Cons p paths)
  have ne: "py_slice_to p k \<noteq> []" and "hd p \<noteq> 0" using Cons.prems by auto
  then have "hd (py_slice_to p k) \<noteq> 0" by (simp add: hd_py_slice_to)
  with ne have "get_initial_drawdown (py_slice_to p k) = Inr (Fin (drawdown_sample (py_slice_to p k)))"
    by (simp add: get_initial_drawdown_finite drawdown_sample_def)
  moreover have "\<forall>p\<in>set paths. py_slice_to p k \<noteq> [] \<and> hd p \<noteq> 0" using Cons.prems by auto
  ultimately show ?case using Cons.IH by simp
qed

lemma initial_drawdowns_loop_error:
  "initial_drawdowns_loop k paths acc = Inl e \<Longrightarrow> e = ValueError"
  by (induction paths arbitrary: acc)
     (auto split: sum.splits dest: get_initial_drawdown_error)

lemma initial_drawdowns_loop_returns:
  "initial_drawdowns_loop k paths acc = Inr ds \<Longrightarrow> \<forall>p\<in>set paths. py_slice_to p k \<noteq> []"
proof (induction paths arbitrary: acc)
  case Nil
  then show ?case by simp
next
  case (Cons p paths)
  show ?case
  proof (cases "get_initial_drawdown (py_slice_to p k)")
    case (Inl e)
    with Cons.prems show ?thesis by simp
  next
    case (Inr v)
    then have "py_slice_to p k \<noteq> []" by (auto simp: get_initial_drawdown_Nil)
    moreover from Inr Cons.prems
    have "initial_drawdowns_loop k paths (acc @ [v]) = Inr ds" by simp
    then have "\<forall>p\<in>set paths. py_slice_to p k \<noteq> []" by (rule Cons.IH)
    ultimately show ?thesis by simp
  qed
qed

subsection \<open>Sorting finite samples\<close>

lemma insort_reverse_Fin:
  "sorted_wrt (\<ge>) ys \<Longrightarrow>
   \<exists>zs. insort_reverse (Fin x) (map Fin ys) = map Fin zs \<and> sorted_wrt (\<ge>) zs \<and>
        mset zs = add_mset x (mset ys)"
proof (induction ys)
  case Nil
  have "insort_reverse (Fin x) (map Fin []) = map Fin [x]" by simp
  then show ?case by (intro exI[of _ "[x]"]) simp
next
  case (Cons y ys)
  show ?case
  proof (cases "y < x")
    case True
    then have "insort_reverse (Fin x) (map Fin (y # ys)) = map Fin (x # y # ys)" by simp
    moreover have "sorted_wrt (\<ge>) (x # y # ys)" using True Cons.prems by auto
    ultimately show ?thesis by (intro exI[of _ "x # y # ys"]) simp
  next
    case False
    from Cons.prems have "sorted_wrt (\<ge>) ys" by simp
    from Cons.IH[OF this] obtain zs where
      zs: "insort_reverse (Fin x) (map Fin ys) = map Fin zs" "sorted_wrt (\<ge>) zs"
          "mset zs = add_mset x (mset ys)" by blast
    have "set zs = insert x (set ys)" using zs(3) by (metis set_mset_add_mset_insert set_mset_mset)
    then have "sorted_wrt (\<ge>) (y # zs)" using zs(2) False Cons.prems by auto
    moreover have "insort_reverse (Fin x) (map Fin (y # ys)) = map Fin (y # zs)"
      using False zs(1) by simp
    ultimately show ?thesis using zs(3) by (intro exI[of _ "y # zs"]) simp
  qed
qed

lemma sort_reverse_Fin_ex:
  "\<exists>zs. sort_reverse (map Fin xs) = map Fin zs \<and> sorted_wrt (\<ge>) zs \<and> mset zs = mset xs"
proof (induction xs)
  case Nil
  show ?case by (intro exI[of _ "[]"]) (simp add: sort_reverse_def)
next
  case (Cons x xs)
  then obtain zs where zs: "sort_reverse (map Fin xs) = map Fin zs" "sorted_wrt (\<ge>) zs"
    "mset zs = mset xs" by blast
  from insort_reverse_Fin[OF zs(2), of x] obtain ws where
    ws: "insort_reverse (Fin x) (map Fin zs) = map Fin ws" "sorted_wrt (\<ge>) ws"
        "mset ws = add_mset x (mset zs)" by blast
  have "sort_reverse (map Fin (x # xs)) = map Fin ws"
    using zs(1) ws(1) by (simp add: sort_reverse_def)
  then show ?case using ws(2,3) zs(3) by (intro exI[of _ ws]) simp
qed

lemma sort_reverse_Fin: "sort_reverse (map Fin xs) = map Fin (rev (sort xs))"
proof -
  obtain zs where zs: "sort_reverse (map Fin xs) = map Fin zs" "sorted_wrt (\<ge>) zs"
    "mset zs = mset xs" using sort_reverse_Fin_ex by blast
  have "sorted (rev zs)" using zs(2) by (simp add: sorted_wrt_rev)
  moreover have "mset (rev zs) = mset xs" using zs(3) by simp
  ultimately have "sort xs = rev zs" by (intro properties_for_sort)
  then show ?thesis using zs(1) by simp
qed

subsection \<open>Indexing\<close>

lemma py_index_map: "py_index (map f xs) i = map_sum id f (py_index xs i)"
  by (simp add: py_index_def Let_def)

lemma py_index_in_set: "py_index xs i = Inr v \<Longrightarrow> v \<in> set xs"
  by (auto simp: py_index_def Let_def split: if_splits)

lemma py_index_error: "py_index xs i = Inl e \<Longrightarrow> e = IndexError"
  by (auto simp: py_index_def Let_def split: if_splits)

lemma py_index_returns:
  "- int (length xs) \<le> i \<Longrightarrow> i < int (length xs) \<Longrightarrow> \<exists>v. py_index xs i = Inr v"
  by (auto simp: py_index_def Let_def)

subsection \<open>The multiplier on finite samples\<close>

lemma get_threshold_multiplier_unfold:
  "paths \<noteq> [] \<Longrightarrow>
   get_threshold_multiplier paths alpha at_step =
     (if effective_step at_step > int (length (hd paths)) then Inl (PyException step_message)
      else
        (case initial_drawdowns_loop (effective_step at_step) paths [] of
           Inl e \<Rightarrow> Inl e
         | Inr ds \<Rightarrow>
             (case quantile_index (length (sort_reverse ds)) alpha of
                Inl e \<Rightarrow> Inl e
              | Inr i \<Rightarrow>
                  (case py_index (sort_reverse ds) i of
                     Inl e \<Rightarrow> Inl e
                   | Inr v \<Rightarrow> Inr (np_truediv (Fin 1) (np_add (Fin 1) v))))))"
  unfolding get_threshold_multiplier_def Let_def by (cases paths) simp_all

lemma length_sort_reverse_Fin: "length (sort_reverse (map Fin xs)) = length xs"
  by (simp add: sort_reverse_Fin)

lemma get_threshold_multiplier_finite:
  assumes ne: "paths \<noteq> []"
    and step: "effective_step at_step \<le> int (length (hd paths))"
    and ok: "\<forall>p\<in>set paths. py_slice_to p (effective_step at_step) \<noteq> [] \<and> hd p \<noteq> 0"
  shows "get_threshold_multiplier paths alpha at_step =
           (case quantile_index (length paths) alpha of
              Inl e \<Rightarrow> Inl e
            | Inr i \<Rightarrow>
                (case py_index
                        (rev (sort (map (\<lambda>p. drawdown_sample (py_slice_to p (effective_step at_step)))
                                     paths))) i of
                   Inl e \<Rightarrow> Inl e
                 | Inr v \<Rightarrow> Inr (if 1 + v = 0 then PInf else Fin (1 / (1 + v)))))"
proof -
  let ?k = "effective_step at_step"
  let ?samples = "map (\<lambda>p. drawdown_sample (py_slice_to p ?k)) paths"
  obtain p0 rest where p: "paths = p0 # rest" using ne by (cases paths) auto
  have loop: "initial_drawdowns_loop ?k paths [] = Inr (map Fin ?samples)"
    using initial_drawdowns_loop_finite[OF ok, of "[]"] by (simp add: comp_def)
  have srt: "sort_reverse (map Fin ?samples) = map Fin (rev (sort ?samples))"
    by (rule sort_reverse_Fin)
  have "get_threshold_multiplier paths alpha at_step =
          (case quantile_index (length paths) alpha of
             Inl e \<Rightarrow> Inl e
           | Inr i \<Rightarrow>
               (case py_index (map Fin (rev (sort ?samples))) i of
                  Inl e \<Rightarrow> Inl e
                | Inr value_at_risk \<Rightarrow> Inr (np_truediv (Fin 1) (np_add (Fin 1) value_at_risk))))"
  proof -
    have ns: "\<not> effective_step at_step > int (length (hd paths))" using step by simp
    show ?thesis
      by (simp only: get_threshold_multiplier_unfold[OF ne] ns if_False loop sum.case srt
          length_map length_rev length_sort)
  qed
  then show ?thesis
    by (simp add: py_index_map split: sum.splits)
qed

lemma get_threshold_multiplier_returns:
  assumes "get_threshold_multiplier paths alpha at_step = Inr r"
  shows "paths \<noteq> [] \<and> effective_step at_step \<le> int (length (hd paths)) \<and>
         (\<forall>p\<in>set paths. py_slice_to p (effective_step at_step) \<noteq> [])"
proof (cases paths)
  case Nil
  with assms show ?thesis by (simp add: get_threshold_multiplier_def)
next
  case (Cons p0 rest)
  show ?thesis
  proof (cases "effective_step at_step > int (length p0)")
    case True
    with assms Cons show ?thesis by (simp add: get_threshold_multiplier_def)
  next
    case False
    with assms Cons obtain ds where
      "initial_drawdowns_loop (effective_step at_step) paths [] = Inr ds"
      by (auto simp: get_threshold_multiplier_def Let_def split: sum.splits)
    from initial_drawdowns_loop_returns[OF this] False Cons show ?thesis by simp
  qed
qed

lemma get_threshold_multiplier_range_error:
  "paths \<noteq> [] \<Longrightarrow>
   (get_threshold_multiplier paths alpha at_step = Inl (PyException m)) =
   (m = step_message \<and> effective_step at_step > int (length (hd paths)))"
  by (auto simp: get_threshold_multiplier_unfold split: sum.splits
           dest: initial_drawdowns_loop_error py_index_error quantile_index_error)

lemma drawdown_sample_range:
  assumes "series \<noteq> []" and "\<forall>x\<in>set series. 0 < x"
  shows "- 1 < drawdown_sample series \<and> drawdown_sample series \<le> 0"
proof -
  have fin: "finite (set series)" and ne: "set series \<noteq> {}" using assms(1) by simp_all
  have "Min (set series) \<in> set series" by (rule Min_in[OF fin ne])
  then have m: "0 < Min (set series)" using assms(2) by blast
  have h: "hd series \<in> set series" using assms(1) by simp
  then have h0: "0 < hd series" using assms(2) by blast
  have le: "Min (set series) \<le> hd series" by (rule Min_le[OF fin h])
  have "0 < Min (set series) / hd series" using m h0 by simp
  moreover have "Min (set series) / hd series \<le> 1" using le h0 by simp
  ultimately show ?thesis by (simp add: drawdown_sample_def)
qed

lemma get_threshold_multiplier_errors:
  assumes "get_threshold_multiplier paths alpha at_step = Inl e"
  shows "e = KeyError \<or> e = PyException step_message \<or> e = ValueError \<or>
         e = OverflowError \<or> e = IndexError"
proof (cases paths)
  case Nil
  with assms show ?thesis by (simp add: get_threshold_multiplier_def)
next
  case (Cons p0 rest)
  then have "paths \<noteq> []" by simp
  from assms[unfolded get_threshold_multiplier_unfold[OF this]] show ?thesis
    by (auto split: if_splits sum.splits
             dest: initial_drawdowns_loop_error py_index_error quantile_index_error)
qed

lemmas multiplier_eval =
  get_threshold_multiplier_def effective_step_def get_initial_drawdown_def py_min_def
  py_slice_to_def sort_reverse_def py_index_def np_truediv_Fin
  quantile_index_1_half quantile_index_2_half quantile_index_5_half
  quantile_index_10_double_07

section \<open>Truncation of the paths\<close>

text \<open>
  C3. The claim: when \<^verbatim>\<open>at_step\<close> is not given, each drawdown sample is computed over the
  entire path, its last element included. The code replaces \<^verbatim>\<open>None\<close> by \<open>-1\<close> and slices
  \<^verbatim>\<open>path[:-1]\<close>: every path loses its last element. On the single path \<open>[2, 1]\<close> with
  \<open>alpha = 1/2\<close> the sample is taken over \<open>[2]\<close> and the multiplier is 1, where the whole
  path (as with \<^verbatim>\<open>at_step = 2\<close>) gives 2.
\<close>

theorem at_step_None_drops_last:
  "py_slice_to path (effective_step None) = butlast path \<and>
   get_threshold_multiplier [[2, 1]] (1 / 2) None = Inr (Fin 1) \<and>
   get_threshold_multiplier [[2, 1]] (1 / 2) (Some 2) = Inr (Fin 2)"
proof -
  have "py_slice_to path (effective_step None) = butlast path"
    by (simp add: py_slice_to_def effective_step_def butlast_conv_take nat_diff_distrib')
  moreover have "get_threshold_multiplier [[2, 1]] (1 / 2) None = Inr (Fin 1)"
    by (simp add: multiplier_eval)
  moreover have "get_threshold_multiplier [[2, 1]] (1 / 2) (Some 2) = Inr (Fin 2)"
    by (simp add: multiplier_eval)
  ultimately show ?thesis by simp
qed

section \<open>The rank-based quantile\<close>




text \<open>
  C9. For every non-empty collection of positive-valued paths, every value that
  \<^verbatim>\<open>get_threshold_multiplier\<close> returns is a finite number not below 1; and it does return
  one whenever \<^verbatim>\<open>at_step\<close> passes the range check, no truncated path is empty and the
  quantile index is computed and in range.
\<close>

theorem threshold_multiplier_at_least_one:
  assumes ne: "paths \<noteq> []"
    and pos: "\<forall>p\<in>set paths. \<forall>x\<in>set p. 0 < x"
  shows "(\<forall>r. get_threshold_multiplier paths alpha at_step = Inr r \<longrightarrow> (\<exists>x. r = Fin x \<and> 1 \<le> x)) \<and>
         (effective_step at_step \<le> int (length (hd paths)) \<and>
          (\<forall>p\<in>set paths. py_slice_to p (effective_step at_step) \<noteq> []) \<and>
          quantile_index (length paths) alpha = Inr i \<and>
          - int (length paths) \<le> i \<and> i < int (length paths)
          \<longrightarrow> (\<exists>x. get_threshold_multiplier paths alpha at_step = Inr (Fin x) \<and> 1 \<le> x))"
proof -
  let ?k = "effective_step at_step"
  let ?samples = "map (\<lambda>p. drawdown_sample (py_slice_to p ?k)) paths"
  have hd0: "\<forall>p\<in>set paths. py_slice_to p ?k \<noteq> [] \<and> hd p \<noteq> 0"
    if sl: "\<forall>p\<in>set paths. py_slice_to p ?k \<noteq> []"
  proof
    fix p assume p: "p \<in> set paths"
    then have a: "py_slice_to p ?k \<noteq> []" using sl by blast
    then have "p \<noteq> []" by (auto simp: py_slice_to_def split: if_splits)
    then have "hd p \<in> set p" by simp
    then have "hd p \<noteq> 0" using pos p by fastforce
    with a show "py_slice_to p ?k \<noteq> [] \<and> hd p \<noteq> 0" by simp
  qed
  have value_ok: "\<exists>x. r = Fin x \<and> 1 \<le> x"
    if step: "?k \<le> int (length (hd paths))"
      and sl: "\<forall>p\<in>set paths. py_slice_to p ?k \<noteq> []"
      and r: "get_threshold_multiplier paths alpha at_step = Inr r" for r
  proof -
    from r[unfolded get_threshold_multiplier_finite[OF ne step hd0[OF sl]]]
    obtain j v where v: "py_index (rev (sort ?samples)) j = Inr v"
      and rv: "r = (if 1 + v = 0 then PInf else Fin (1 / (1 + v)))"
      by (auto split: sum.splits)
    from py_index_in_set[OF v] have "v \<in> set ?samples" by simp
    then obtain p where p: "p \<in> set paths" and vp: "v = drawdown_sample (py_slice_to p ?k)"
      by auto
    have "\<forall>x\<in>set (py_slice_to p ?k). 0 < x" using pos p set_py_slice_to[of p ?k] by blast
    moreover have "py_slice_to p ?k \<noteq> []" using sl p by blast
    ultimately have range: "- 1 < v \<and> v \<le> 0" unfolding vp by (intro drawdown_sample_range)
    then have "0 < 1 + v" and "1 + v \<le> 1" by simp_all
    then have "1 \<le> 1 / (1 + v)" by (simp add: pos_le_divide_eq)
    moreover have "r = Fin (1 / (1 + v))" using rv range by simp
    ultimately show ?thesis by blast
  qed
  have first: "\<exists>x. r = Fin x \<and> 1 \<le> x"
    if r: "get_threshold_multiplier paths alpha at_step = Inr r" for r
    using get_threshold_multiplier_returns[OF r] value_ok[OF _ _ r] by blast
  have second: "\<exists>x. get_threshold_multiplier paths alpha at_step = Inr (Fin x) \<and> 1 \<le> x"
    if step: "?k \<le> int (length (hd paths))"
      and sl: "\<forall>p\<in>set paths. py_slice_to p ?k \<noteq> []"
      and q: "quantile_index (length paths) alpha = Inr i"
      and lo: "- int (length paths) \<le> i" and hi: "i < int (length paths)"
  proof -
    have len: "int (length (rev (sort ?samples))) = int (length paths)" by simp
    obtain v where v: "py_index (rev (sort ?samples)) i = Inr v"
      using py_index_returns[of "rev (sort ?samples)" i] lo hi unfolding len by blast
    have "get_threshold_multiplier paths alpha at_step =
            Inr (if 1 + v = 0 then PInf else Fin (1 / (1 + v)))"
      using v q by (simp add: get_threshold_multiplier_finite[OF ne step hd0[OF sl]])
    from this value_ok[OF step sl this] show ?thesis by auto
  qed
  from first second show ?thesis by blast
qed

theorem threshold_multiplier_at_least_one_witness:
  "effective_step (Some 3) \<le> int (length (hd [[4, 2, 5], [3, 3, 6 :: real]])) \<and>
   quantile_index (length [[4, 2, 5], [3, 3, 6 :: real]]) (1 / 2) = Inr 1 \<and>
   (\<exists>x. get_threshold_multiplier [[4, 2, 5], [3, 3, 6]] (1 / 2) (Some 3) = Inr (Fin x) \<and> 1 \<le> x)"
proof -
  let ?paths = "[[4, 2, 5], [3, 3, 6 :: real]]"
  have ne: "?paths \<noteq> []" by simp
  have pos: "\<forall>p\<in>set ?paths. \<forall>x\<in>set p. 0 < x" by simp
  have step: "effective_step (Some 3) \<le> int (length (hd ?paths))"
    by (simp add: effective_step_def)
  have sl: "\<forall>p\<in>set ?paths. py_slice_to p (effective_step (Some 3)) \<noteq> []"
    by (simp add: effective_step_def py_slice_to_def)
  have idx: "quantile_index (length ?paths) (1 / 2) = Inr 1"
    by (rule quantile_index_2_half) simp
  have "\<exists>x. get_threshold_multiplier ?paths (1 / 2) (Some 3) = Inr (Fin x) \<and> 1 \<le> x"
    using threshold_multiplier_at_least_one[OF ne pos, of "1 / 2" "Some 3" 1, THEN conjunct2]
      step sl idx by simp
  with step idx show ?thesis by blast
qed

section \<open>A first element of zero\<close>

text \<open>
  C7, as the code has it. For every path whose first element is 0,
  \<^verbatim>\<open>get_initial_drawdown\<close> raises nothing: the division by the zero is a division of
  floats of the table, and the drawdown it returns is NaN or an infinity (which of them
  depends on the minimum of the path and on the sign of the zero, which a path of reals
  does not record). \<^verbatim>\<open>get_threshold_multiplier\<close> never fails with
  \<^verbatim>\<open>ZeroDivisionError\<close>.
\<close>

theorem zero_first_element_is_silent:
  "(series \<noteq> [] \<and> hd series = 0 \<longrightarrow>
      (\<exists>v. get_initial_drawdown series = Inr v \<and> (v = NaN \<or> v = PInf \<or> v = NInf))) \<and>
   get_threshold_multiplier paths alpha at_step \<noteq> Inl ZeroDivisionError"
proof -
  have "get_threshold_multiplier paths alpha at_step \<noteq> Inl ZeroDivisionError"
    using get_threshold_multiplier_errors[of paths alpha at_step ZeroDivisionError] by auto
  moreover have "\<exists>v. get_initial_drawdown series = Inr v \<and> (v = NaN \<or> v = PInf \<or> v = NInf)"
    if "series \<noteq> []" and "hd series = 0"
    using get_initial_drawdown_zero_first[OF that] by simp
  ultimately show ?thesis by blast
qed

theorem zero_first_element_is_silent_witness:
  "[0, 1, 2 :: real] \<noteq> [] \<and> hd [0, 1, 2 :: real] = 0 \<and>
   get_initial_drawdown [0, 1, 2] = Inr NaN"
proof -
  have "\<exists>v. get_initial_drawdown [0, 1, 2] = Inr v \<and> (v = NaN \<or> v = PInf \<or> v = NInf)"
    using zero_first_element_is_silent[of "[0, 1, 2]", THEN conjunct1] by simp
  moreover have "get_initial_drawdown [0, 1, 2] = Inr NaN"
    by (simp add: get_initial_drawdown_def py_min_def np_truediv_by_zero)
  ultimately show ?thesis by simp
qed

text \<open>
  The claim as stated, that such a path fails with an arithmetic error and no NaN reaches
  the result: the path \<open>[0, 1, 2]\<close> has the sample NaN, and the multiplier of the collection
  holding only this path is NaN.
\<close>

theorem zero_first_element_counterexample:
  "get_initial_drawdown [0, 1, 2] = Inr NaN \<and>
   get_threshold_multiplier [[0, 1, 2]] (1 / 2) (Some 3) = Inr NaN"
  by (simp add: multiplier_eval)

section \<open>The range check on at_step\<close>

text \<open>
  C8, as the code has it. For every non-empty collection of paths and every given
  \<^verbatim>\<open>at_step\<close> that exceeds the length of the first path, \<^verbatim>\<open>get_threshold_multiplier\<close>
  fails with the exception of the range check. A path that is not longer than \<^verbatim>\<open>at_step\<close>
  is used whole by the slice.
\<close>

theorem at_step_beyond_first_path:
  "(paths \<noteq> [] \<and> int (length (hd paths)) < k \<longrightarrow>
      get_threshold_multiplier paths alpha (Some k) = Inl (PyException step_message)) \<and>
   (int (length path) \<le> k \<longrightarrow> py_slice_to path k = path)"
proof -
  have "get_threshold_multiplier paths alpha (Some k) = Inl (PyException step_message)"
    if "paths \<noteq> []" and "int (length (hd paths)) < k"
    using that by (simp add: get_threshold_multiplier_unfold effective_step_def)
  moreover have "py_slice_to path k = path" if "int (length path) \<le> k"
    using that by (simp add: py_slice_to_def)
  ultimately show ?thesis by blast
qed

theorem at_step_beyond_first_path_witness:
  "[[1, 1 :: real]] \<noteq> [] \<and> int (length (hd [[1, 1 :: real]])) < 3 \<and>
   get_threshold_multiplier [[1, 1]] (1 / 2) (Some 3) = Inl (PyException step_message) \<and>
   py_slice_to [1, 1 :: real] 3 = [1, 1]"
  using at_step_beyond_first_path[of "[[1, 1]]" 3 "1 / 2" "[1, 1]"] by simp

text \<open>
  The claim as stated, for an \<^verbatim>\<open>at_step\<close> that exceeds the length of any path of the
  collection: with the paths \<open>[1, 1, 1]\<close> and \<open>[1, 1]\<close> and \<^verbatim>\<open>at_step = 3\<close> the second path
  is shorter than \<^verbatim>\<open>at_step\<close>, nothing is raised and its drawdown enters the result.
\<close>

theorem at_step_beyond_later_path_counterexample:
  "get_threshold_multiplier [[1, 1, 1], [1, 1]] (1 / 2) (Some 3) = Inr (Fin 1)"
  by (simp add: multiplier_eval)

text \<open>
  C10. The range check looks at the first path only: on a non-empty collection the
  exception of the check is raised exactly when \<^verbatim>\<open>at_step\<close> exceeds the length of the
  first path, so none is raised when the first path is long enough, whatever the lengths
  of the other paths.
\<close>

theorem range_check_first_path_only:
  assumes "paths \<noteq> []"
  shows "(\<exists>m. get_threshold_multiplier paths alpha at_step = Inl (PyException m)) =
         (int (length (hd paths)) < effective_step at_step)"
  using assms by (auto simp: get_threshold_multiplier_range_error)

theorem range_check_first_path_only_witness:
  "int (length [1, 1 :: real]) < effective_step (Some 3) \<and>
   \<not> int (length (hd [[1, 1, 1], [1, 1 :: real]])) < effective_step (Some 3) \<and>
   \<not> (\<exists>m. get_threshold_multiplier [[1, 1, 1], [1, 1]] (1 / 2) (Some 3) = Inl (PyException m))"
  using range_check_first_path_only[of "[[1, 1, 1], [1, 1]]" "1 / 2" "Some 3"]
  by (simp add: effective_step_def)

end
